theory Spec2Isabelle
  imports Main "HOL-Library.Word" "HOL-Library.Signed_Division"
begin

section \<open>Machine integers of the C++ source\<close>

text \<open>
  The program is \<^verbatim>\<open>code/detour-group-theory.cpp\<close>, built for x86-64 with gcc.
  A C++ \<^verbatim>\<open>int\<close> is a 32-bit two's complement value: a \<open>32 word\<close> read through
  \<open>sint\<close>. Addition on words wraps around, where C++ leaves signed overflow undefined;
  a theorem that an addition does not overflow therefore states that the mathematical sum
  of the \<open>sint\<close> values stays below \<open>2 ^ 31\<close>.
\<close>

type_synonym cint = "32 word"

definition INT_MAX :: int where
  "INT_MAX = 2 ^ 31 - 1"

text \<open>The C++ operators \<^verbatim>\<open>/\<close> and \<^verbatim>\<open>%\<close> on \<^verbatim>\<open>int\<close>, and \<^verbatim>\<open>std::div\<close>: the
  quotient is truncated towards zero and the remainder has the sign of the dividend.
  (A zero divisor is undefined in C++; the program divides by 256, 26 and 10 only.)\<close>

definition int_quot :: "cint \<Rightarrow> cint \<Rightarrow> cint" where
  "int_quot a b = word_of_int (sint a sdiv sint b)"

definition int_rem :: "cint \<Rightarrow> cint \<Rightarrow> cint" where
  "int_rem a b = word_of_int (sint a smod sint b)"

section \<open>The cyclic counter: class Z256Generator\<close>

text \<open>
  \<^verbatim>\<open>
  class Z256Generator {
  public:
      int next() {
          state_ = (state_ + 191) % 256;
          return state_;
      }
  private:
      int state_ = 42;
  };
  \<close>
  The object is a record of its one field (\<open>state\<close> for \<^verbatim>\<open>state_\<close>: a name cannot end
  in an underscore here); \<open>next\<close> takes the object and returns the value together with the
  updated object. \<open>Z256Generator_init\<close> is the object as its constructor leaves it.
\<close>

record Z256Generator =
  state :: cint

definition Z256Generator_init :: Z256Generator where
  "Z256Generator_init = \<lparr>state = 42\<rparr>"

definition Z256Generator_next :: "Z256Generator \<Rightarrow> cint \<times> Z256Generator" where
  "Z256Generator_next g =
     (let g' = g\<lparr>state := int_rem (state g + 191) 256\<rparr>
      in (state g', g'))"

text \<open>\<open>n\<close> successive calls of \<open>next\<close> on one object: the values in call order, and the
  object after the last call.\<close>

fun Z256Generator_calls :: "nat \<Rightarrow> Z256Generator \<Rightarrow> cint list \<times> Z256Generator" where
  "Z256Generator_calls 0 g = ([], g)"
| "Z256Generator_calls (Suc n) g =
     (let (v, g') = Z256Generator_next g;
          (vs, g'') = Z256Generator_calls n g'
      in (v # vs, g''))"

text \<open>The value returned by the call that follows \<open>n\<close> earlier calls on a fresh object
  (call number \<open>n + 1\<close>).\<close>

definition Z256Generator_output :: "nat \<Rightarrow> cint" where
  "Z256Generator_output n =
     fst (Z256Generator_next (snd (Z256Generator_calls n Z256Generator_init)))"

text \<open>
  \<^verbatim>\<open>
  void test_Z256Generator() {
      std::set<int> s;
      Z256Generator g;
      for (int i = 0; i < 256; i++)
          s.insert(g.next());
      assert(s.size() == 256);
  }
  \<close>
  The loop carries the counter, the set and the object; the test is the truth value of its
  assertion. The counter stays below 257, so it is a \<open>nat\<close>.
\<close>

function test_Z256Generator_loop :: "nat \<Rightarrow> cint set \<Rightarrow> Z256Generator \<Rightarrow> cint set" where
  "test_Z256Generator_loop i s g =
     (if i < 256
      then (let (v, g') = Z256Generator_next g
            in test_Z256Generator_loop (i + 1) (insert v s) g')
      else s)"
  by pat_completeness auto
termination
  by (relation "measure (\<lambda>(i, s, g). 256 - i)") auto

definition test_Z256Generator :: bool where
  "test_Z256Generator = (card (test_Z256Generator_loop 0 {} Z256Generator_init) = 256)"

section \<open>The serial numbers: class SerialNumberGenerator\<close>

subsection \<open>The engine\<close>

text \<open>
  \<^verbatim>\<open>
  using Lcg = std::linear_congruential_engine<std::uint_fast32_t, 261, 1, 676'000>;
  Lcg lcg_{123'456};
  \<close>
  The class template belongs to the C++ standard library, not to the program. The standard
  fixes what it computes: an engine with multiplier \<open>a\<close>, increment \<open>c\<close> and modulus
  \<open>m > 0\<close> holds one value \<open>x\<close>; seeding with \<open>s\<close> sets \<open>x\<close> to \<open>s mod m\<close>, or
  to \<open>1\<close> when \<open>c mod m\<close> and \<open>s mod m\<close> are both \<open>0\<close>; a call sets \<open>x\<close> to
  \<open>(a * x + c) mod m\<close>, computed without overflow, and returns it. The state is a
  \<open>nat\<close> with the reduction written out. (With \<open>x < 676000\<close> the value
  \<open>261 * x + 1\<close> stays below \<open>2 ^ 32\<close>, the least width of \<^verbatim>\<open>uint_fast32_t\<close>.)
\<close>

definition linear_congruential_engine_seed :: "nat \<Rightarrow> nat \<Rightarrow> nat \<Rightarrow> nat \<Rightarrow> nat" where
  "linear_congruential_engine_seed a c m s =
     (if c mod m = 0 \<and> s mod m = 0 then 1 else s mod m)"

definition linear_congruential_engine_call :: "nat \<Rightarrow> nat \<Rightarrow> nat \<Rightarrow> nat \<Rightarrow> nat \<times> nat" where
  "linear_congruential_engine_call a c m x = (let x' = (a * x + c) mod m in (x', x'))"

type_synonym Lcg = nat

definition Lcg_seed :: "nat \<Rightarrow> Lcg" where
  "Lcg_seed = linear_congruential_engine_seed 261 1 676000"

definition Lcg_call :: "Lcg \<Rightarrow> nat \<times> Lcg" where
  "Lcg_call = linear_congruential_engine_call 261 1 676000"

text \<open>The change of the engine's state by one call.\<close>

definition Lcg_step :: "Lcg \<Rightarrow> Lcg" where
  "Lcg_step x = snd (Lcg_call x)"

subsection \<open>The generator\<close>

text \<open>
  \<^verbatim>\<open>
  std::string next() {
      std::string serial;
      const auto add_digit = [&serial](int val, int base, char offset) {
          const auto res = std::div(val, base);
          serial.push_back(offset + res.rem);
          return res.quot;
      };
      auto value = static_cast<int>(lcg_());
      value = add_digit(value, 26, 'A');
      value = add_digit(value, 26, 'A');
      value = add_digit(value, 10, '0');
      value = add_digit(value, 10, '0');
      value = add_digit(value, 10, '0');
      return serial;
  }
  \<close>
  The lambda captures \<open>serial\<close> by reference: in the model it takes the string and returns
  it extended. In \<^verbatim>\<open>offset + res.rem\<close> the character is promoted to \<^verbatim>\<open>int\<close>, and
  \<^verbatim>\<open>push_back\<close> converts the sum back to a character, keeping its low eight bits
  (\<open>char_of\<close>). The offsets passed are the ASCII characters \<open>A\<close> and \<open>0\<close>, whose
  promoted value is the same for a signed and an unsigned \<^verbatim>\<open>char\<close> (\<open>of_char\<close>).
  \<^verbatim>\<open>static_cast<int>\<close> keeps the low 32 bits (\<open>word_of_nat\<close>).
\<close>

definition add_digit :: "cint \<Rightarrow> cint \<Rightarrow> char \<Rightarrow> string \<Rightarrow> cint \<times> string" where
  "add_digit val base offset serial =
     (let quot = int_quot val base;
          rem = int_rem val base
      in (quot, serial @ [char_of (uint (of_char offset + rem))]))"

text \<open>The five \<open>add_digit\<close> lines of \<open>next\<close>, as a function of the value drawn.\<close>

definition SerialNumberGenerator_digits :: "cint \<Rightarrow> string" where
  "SerialNumberGenerator_digits value0 =
     (let serial = [];
          (value1, serial) = add_digit value0 26 (CHR ''A'') serial;
          (value2, serial) = add_digit value1 26 (CHR ''A'') serial;
          (value3, serial) = add_digit value2 10 (CHR ''0'') serial;
          (value4, serial) = add_digit value3 10 (CHR ''0'') serial;
          (value5, serial) = add_digit value4 10 (CHR ''0'') serial
      in serial)"

record SerialNumberGenerator =
  lcg :: Lcg

definition SerialNumberGenerator_init :: SerialNumberGenerator where
  "SerialNumberGenerator_init = \<lparr>lcg = Lcg_seed 123456\<rparr>"

definition SerialNumberGenerator_next :: "SerialNumberGenerator \<Rightarrow> string \<times> SerialNumberGenerator" where
  "SerialNumberGenerator_next g =
     (let (r, l) = Lcg_call (lcg g);
          value0 = (word_of_nat r :: cint)
      in (SerialNumberGenerator_digits value0, g\<lparr>lcg := l\<rparr>))"

fun SerialNumberGenerator_calls :: "nat \<Rightarrow> SerialNumberGenerator \<Rightarrow> string list \<times> SerialNumberGenerator" where
  "SerialNumberGenerator_calls 0 g = ([], g)"
| "SerialNumberGenerator_calls (Suc n) g =
     (let (v, g') = SerialNumberGenerator_next g;
          (vs, g'') = SerialNumberGenerator_calls n g'
      in (v # vs, g''))"

text \<open>
  \<^verbatim>\<open>
  void test_SerialNumberGenerator() {
      std::set<std::string> s;
      SerialNumberGenerator g;
      for (int i = 0; i < 676000; i++)
          s.insert(g.next());
      assert(s.size() == 676000);
  }
  \<close>
\<close>

function test_SerialNumberGenerator_loop ::
    "nat \<Rightarrow> string set \<Rightarrow> SerialNumberGenerator \<Rightarrow> string set" where
  "test_SerialNumberGenerator_loop i s g =
     (if i < 676000
      then (let (v, g') = SerialNumberGenerator_next g
            in test_SerialNumberGenerator_loop (i + 1) (insert v s) g')
      else s)"
  by pat_completeness auto
termination
  by (relation "measure (\<lambda>(i, s, g). 676000 - i)") auto

definition test_SerialNumberGenerator :: bool where
  "test_SerialNumberGenerator =
     (card (test_SerialNumberGenerator_loop 0 {} SerialNumberGenerator_init) = 676000)"

subsection \<open>The format and the decomposition, as the specification words them\<close>

text \<open>An identifier: two uppercase ASCII letters followed by three ASCII decimal digits.\<close>

definition is_upper :: "char \<Rightarrow> bool" where
  "is_upper c = (65 \<le> (of_char c :: nat) \<and> (of_char c :: nat) \<le> 90)"

definition is_digit :: "char \<Rightarrow> bool" where
  "is_digit c = (48 \<le> (of_char c :: nat) \<and> (of_char c :: nat) \<le> 57)"

fun serial_format :: "string \<Rightarrow> bool" where
  "serial_format [a, b, c, d, e] =
     (is_upper a \<and> is_upper b \<and> is_digit c \<and> is_digit d \<and> is_digit e)"
| "serial_format _ = False"

text \<open>Mixed-radix decomposition, low-order digit first: at each step the character
  \<open>offset + v mod radix\<close> is appended and \<open>v\<close> becomes \<open>v div radix\<close>.\<close>

fun mixed_radix :: "nat list \<Rightarrow> char list \<Rightarrow> nat \<Rightarrow> string" where
  "mixed_radix (r # rs) (off # offs) v =
     char_of (of_char off + v mod r :: nat) # mixed_radix rs offs (v div r)"
| "mixed_radix _ _ v = []"

section \<open>Auxiliary functions of the proofs\<close>

text \<open>
  \<open>geom n\<close> is the sum \<open>1 + 261 + \<dots> + 261 ^ (n - 1)\<close>: the state reached from 0 by
  \<open>n\<close> steps of the recurrence, before reduction. \<open>geom_mod\<close> computes it modulo
  676000 by halving \<open>n\<close>, from \<open>geom (2 * n) = geom n * (2 + 260 * geom n)\<close>.
\<close>

fun geom :: "nat \<Rightarrow> nat" where
  "geom 0 = 0"
| "geom (Suc n) = 261 * geom n + 1"

function geom_mod :: "nat \<Rightarrow> nat" where
  "geom_mod n =
     (if n = 0 then 0
      else (let h = geom_mod (n div 2);
                d = (h * (2 + 260 * h)) mod 676000
            in if even n then d else (261 * d + 1) mod 676000))"
  by pat_completeness auto
termination
  by (relation "measure (\<lambda>n. n)") auto

declare geom_mod.simps [simp del]

section \<open>Proofs: the cyclic counter\<close>

lemma sint_word_of_int_small:
  "0 \<le> k \<Longrightarrow> k < 2 ^ 31 \<Longrightarrow> sint (word_of_int k :: cint) = k"
  by (simp add: sint_sbintrunc' signed_take_bit_int_eq_self)

lemma Z256_add_no_wrap:
  assumes "0 \<le> sint s" "sint s < 256"
  shows "sint (s + 191 :: cint) = sint s + 191"
  using assms by (simp add: sint_word_add signed_take_bit_int_eq_self)

lemma Z256_step_sint:
  assumes "0 \<le> sint s" "sint s < 256"
  shows "sint (int_rem (s + 191) 256) = (sint s + 191) mod 256"
proof -
  have "(sint s + 191) smod 256 = (sint s + 191) mod 256"
    using assms by (simp add: smod_mod_positive)
  then show ?thesis
    using assms by (simp add: int_rem_def Z256_add_no_wrap sint_word_of_int_small)
qed

lemma Z256_calls_Suc:
  "Z256Generator_calls (Suc n) g =
     (fst (Z256Generator_calls n g) @ [fst (Z256Generator_next (snd (Z256Generator_calls n g)))],
      snd (Z256Generator_next (snd (Z256Generator_calls n g))))"
  by (induction n arbitrary: g) (simp_all add: split_beta Let_def)

lemma Z256_length_calls: "length (fst (Z256Generator_calls n g)) = n"
  by (induction n arbitrary: g) (simp_all add: split_beta Let_def)

lemma Z256_next_fst: "fst (Z256Generator_next g) = state (snd (Z256Generator_next g))"
  by (simp add: Z256Generator_next_def)

lemma Z256_state_after:
  "sint (state (snd (Z256Generator_calls n Z256Generator_init))) = (42 + 191 * int n) mod 256"
proof (induction n)
  case 0
  show ?case by (simp add: Z256Generator_init_def)
next
  case (Suc n)
  let ?s = "state (snd (Z256Generator_calls n Z256Generator_init))"
  have r: "0 \<le> sint ?s" "sint ?s < 256" by (simp_all add: Suc.IH)
  have "sint (state (snd (Z256Generator_calls (Suc n) Z256Generator_init)))
        = (sint ?s + 191) mod 256"
    unfolding Z256_calls_Suc by (simp add: Z256Generator_next_def Z256_step_sint [OF r])
  also have "\<dots> = ((42 + 191 * int n) mod 256 + 191) mod 256"
    by (simp only: Suc.IH)
  also have "\<dots> = ((42 + 191 * int n) + 191) mod 256"
    by (rule mod_add_left_eq)
  also have "(42 + 191 * int n) + 191 = 42 + 191 * int (Suc n)"
    by simp
  finally show ?case .
qed

lemma Z256_nth_output:
  "k < n \<Longrightarrow> fst (Z256Generator_calls n g) ! k = state (snd (Z256Generator_calls (Suc k) g))"
proof (induction n)
  case 0 then show ?case by simp
next
  case (Suc n)
  show ?case
  proof (cases "k < n")
    case True
    then show ?thesis using Suc.IH
      by (simp add: Z256_calls_Suc [of n] nth_append Z256_length_calls del: Z256Generator_calls.simps)
  next
    case False
    with Suc.prems have "k = n" by simp
    then show ?thesis
      by (simp add: Z256_calls_Suc [of n] nth_append Z256_length_calls Z256_next_fst del: Z256Generator_calls.simps)
  qed
qed

lemma Z256_residue_inj:
  assumes "0 \<le> i" "i < 256" "0 \<le> j" "j < 256"
    and h: "(c + 191 * i) mod 256 = (c + 191 * j) mod (256::int)"
  shows "i = j"
proof -
  have "(256::int) dvd (c + 191 * i) - (c + 191 * j)"
    using h by (simp only: mod_eq_dvd_iff)
  then obtain q where "(c + 191 * i) - (c + 191 * j) = 256 * q" ..
  then have q: "191 * (i - j) = 256 * q"
    by (simp add: right_diff_distrib)
  define k where "k = 63 * q - 47 * (i - j)"
  have "i - j = 63 * (191 * (i - j)) - 12032 * (i - j)" by simp
  also have "\<dots> = 63 * (256 * q) - 12032 * (i - j)" by (simp only: q)
  also have "\<dots> = 256 * k" by (simp add: k_def)
  finally have e: "i - j = 256 * k" .
  have "k < 1" using e assms(1-4) by linarith
  moreover have "-1 < k" using e assms(1-4) by linarith
  ultimately have "k = 0" by linarith
  with e show ?thesis by simp
qed

lemma Z256_output_state:
  "Z256Generator_output n = state (snd (Z256Generator_calls (Suc n) Z256Generator_init))"
  by (simp add: Z256Generator_output_def Z256_calls_Suc Z256_next_fst
      del: Z256Generator_calls.simps)

lemma Z256_sint_output: "sint (Z256Generator_output n) = (42 + 191 * int (Suc n)) mod 256"
  by (simp only: Z256_output_state Z256_state_after)

lemma Z256_calls_map:
  "fst (Z256Generator_calls n Z256Generator_init) = map Z256Generator_output [0..<n]"
  by (rule nth_equalityI)
     (simp_all add: Z256_length_calls Z256_nth_output Z256_output_state
        del: Z256Generator_calls.simps)

lemma Z256_outputs_inj: "inj_on (\<lambda>k. sint (Z256Generator_output k)) {0..<256}"
proof (rule inj_onI)
  fix i j :: nat
  assume "i \<in> {0..<256}" "j \<in> {0..<256}"
    and "sint (Z256Generator_output i) = sint (Z256Generator_output j)"
  then have "(42 + 191 * int (Suc i)) mod 256 = (42 + 191 * int (Suc j)) mod 256"
    and "int i < 256" "int j < 256"
    by (simp_all add: Z256_sint_output)
  then have "(233 + 191 * int i) mod 256 = (233 + 191 * int j) mod 256"
    by (simp add: algebra_simps)
  moreover have "0 \<le> int i" by simp
  moreover note \<open>int i < 256\<close>
  moreover have "0 \<le> int j" by simp
  moreover note \<open>int j < 256\<close>
  ultimately have "int i = int j"
    by (rule Z256_residue_inj [rotated 4])
  then show "i = j" by simp
qed

lemma Z256_sint_outputs_distinct:
  "distinct (map (\<lambda>k. sint (Z256Generator_output k)) [0..<256])"
  using Z256_outputs_inj by (simp add: distinct_map)

lemma Z256_sint_outputs_set:
  "(\<lambda>k. sint (Z256Generator_output k)) ` {0..<256} = {0..<256}"
proof (rule card_subset_eq)
  show "finite {0..<256::int}" by simp
  show "(\<lambda>k. sint (Z256Generator_output k)) ` {0..<256} \<subseteq> {0..<256}"
    by (auto simp: Z256_sint_output)
  have "card ((\<lambda>k. sint (Z256Generator_output k)) ` {0..<256::nat}) = card {0..<256::nat}"
    by (rule card_image) (rule Z256_outputs_inj)
  then show "card ((\<lambda>k. sint (Z256Generator_output k)) ` {0..<256::nat}) = card {0..<256::int}"
    by simp
qed

lemma test_Z256Generator_loop_set:
  "i \<le> 256 \<Longrightarrow>
   test_Z256Generator_loop i s g = s \<union> set (fst (Z256Generator_calls (256 - i) g))"
proof (induction i s g rule: test_Z256Generator_loop.induct)
  case (1 i s g)
  show ?case
  proof (cases "i < 256")
    case True
    obtain v g' where n: "Z256Generator_next g = (v, g')" by (cases "Z256Generator_next g")
    from True have d: "256 - i = Suc (256 - (i + 1))" by simp
    have "test_Z256Generator_loop i s g = test_Z256Generator_loop (i + 1) (insert v s) g'"
      using True n by simp
    also have "\<dots> = insert v s \<union> set (fst (Z256Generator_calls (256 - (i + 1)) g'))"
      using True n by (intro "1.IH") simp_all
    also have "\<dots> = s \<union> set (fst (Z256Generator_calls (256 - i) g))"
      by (simp only: d Z256Generator_calls.simps n) (simp add: split_beta)
    finally show ?thesis .
  next
    case False
    with "1.prems" have "i = 256" by simp
    then show ?thesis by simp
  qed
qed

text \<open>
  Claim C6. \<open>next\<close> sets the state to \<open>(state + 191) mod 256\<close> and returns the new
  state, starting from the state 42: this holds at the object reached after any number
  \<open>n\<close> of calls on a fresh object, the values read as signed integers. The first three
  values returned by a fresh object are 233, 168 and 103, in this order.
\<close>
theorem Z256Generator_next_recurrence:
  "state Z256Generator_init = 42 \<and>
   (\<forall>n. let g = snd (Z256Generator_calls n Z256Generator_init) in
      sint (state (snd (Z256Generator_next g))) = (sint (state g) + 191) mod 256 \<and>
      fst (Z256Generator_next g) = state (snd (Z256Generator_next g))) \<and>
   fst (Z256Generator_calls 3 Z256Generator_init) = [233, 168, 103]"
proof (intro conjI allI)
  show "state Z256Generator_init = 42" by (simp add: Z256Generator_init_def)
next
  fix n
  let ?g = "snd (Z256Generator_calls n Z256Generator_init)"
  have r: "0 \<le> sint (state ?g)" "sint (state ?g) < 256"
    by (simp_all add: Z256_state_after)
  have "sint (state (snd (Z256Generator_next ?g))) = (sint (state ?g) + 191) mod 256"
    by (simp add: Z256Generator_next_def Z256_step_sint [OF r])
  then show "let g = ?g in
      sint (state (snd (Z256Generator_next g))) = (sint (state g) + 191) mod 256 \<and>
      fst (Z256Generator_next g) = state (snd (Z256Generator_next g))"
    by (simp add: Let_def Z256_next_fst)
next
  show "fst (Z256Generator_calls 3 Z256Generator_init) = [233, 168, 103]"
    by (simp add: numeral_3_eq_3 Z256Generator_next_def Z256Generator_init_def int_rem_def)
qed

text \<open>
  Claim C5. 256 calls of \<open>next\<close> on a fresh cyclic counter return 256 values that are
  pairwise distinct, and the set of these values is the whole range from 0 up to and
  excluding 256: every residue is returned exactly once. The assertion of
  \<^verbatim>\<open>test_Z256Generator\<close> holds.
\<close>
theorem Z256Generator_full_cycle:
  "length (fst (Z256Generator_calls 256 Z256Generator_init)) = 256 \<and>
   distinct (fst (Z256Generator_calls 256 Z256Generator_init)) \<and>
   sint ` set (fst (Z256Generator_calls 256 Z256Generator_init)) = {0..<256} \<and>
   test_Z256Generator"
proof -
  let ?outs = "fst (Z256Generator_calls 256 Z256Generator_init)"
  have len: "length ?outs = 256" by (rule Z256_length_calls)
  have "distinct (map sint ?outs)"
    using Z256_sint_outputs_distinct by (simp add: Z256_calls_map comp_def)
  then have dist: "distinct ?outs" by (simp add: distinct_map)
  have img: "sint ` set ?outs = {0..<256}"
    using Z256_sint_outputs_set by (simp add: Z256_calls_map image_image)
  have "test_Z256Generator_loop 0 {} Z256Generator_init = set ?outs"
    by (simp add: test_Z256Generator_loop_set del: test_Z256Generator_loop.simps)
  then have "test_Z256Generator"
    using dist len by (simp add: test_Z256Generator_def distinct_card)
  with len dist img show ?thesis by simp
qed

text \<open>
  Claim C9. After any number \<open>n\<close> of calls on a fresh cyclic counter (none included, the
  state being 42 then) the state is at least 0 and below 256; the sum \<open>state + 191\<close> of the
  next call stays within \<^verbatim>\<open>int\<close> (it does not wrap around), both operands of \<^verbatim>\<open>%\<close> are
  not negative, and so is its result.
\<close>
theorem Z256Generator_state_range:
  "(let s = state (snd (Z256Generator_calls n Z256Generator_init)) in
     0 \<le> sint s \<and> sint s < 256 \<and>
     sint s + 191 \<le> INT_MAX \<and> sint (s + 191) = sint s + 191 \<and>
     0 \<le> sint (s + 191) \<and> 0 < sint (256 :: cint) \<and>
     0 \<le> sint (int_rem (s + 191) 256))"
proof -
  let ?s = "state (snd (Z256Generator_calls n Z256Generator_init))"
  have r: "0 \<le> sint ?s" "sint ?s < 256"
    by (simp_all add: Z256_state_after)
  have a: "sint (?s + 191) = sint ?s + 191" by (rule Z256_add_no_wrap [OF r])
  have m: "0 \<le> sint (int_rem (?s + 191) 256)"
    by (simp add: Z256_step_sint [OF r])
  have i: "sint ?s + 191 \<le> INT_MAX" using r by (simp add: INT_MAX_def)
  show ?thesis
    unfolding Let_def using r a m i by simp
qed

text \<open>
  Claim C10. After 256 calls the state of a fresh cyclic counter is the initial state 42
  again, and the 256th value returned is 42. The value returned 256 calls later is always
  the same, and for no shift \<open>p\<close> with \<open>0 < p < 256\<close> is it: the sequence returned has
  period exactly 256. (\<open>Z256Generator_output n\<close> is the value of call number \<open>n + 1\<close>.)
\<close>
theorem Z256Generator_period:
  "state (snd (Z256Generator_calls 256 Z256Generator_init)) = state Z256Generator_init \<and>
   state Z256Generator_init = 42 \<and>
   Z256Generator_output 255 = 42 \<and>
   Z256Generator_output (n + 256) = Z256Generator_output n \<and>
   (0 < p \<and> p < 256 \<longrightarrow> Z256Generator_output (n + p) \<noteq> Z256Generator_output n)"
proof (intro conjI impI)
  show i: "state Z256Generator_init = 42" by (simp add: Z256Generator_init_def)
  have "sint (state (snd (Z256Generator_calls 256 Z256Generator_init))) = sint (42 :: cint)"
    by (simp add: Z256_state_after)
  then show "state (snd (Z256Generator_calls 256 Z256Generator_init)) = state Z256Generator_init"
    by (simp only: i signed_word_eqI)
  have "sint (Z256Generator_output 255) = sint (42 :: cint)"
    by (simp add: Z256_sint_output)
  then show "Z256Generator_output 255 = 42" by (rule signed_word_eqI)
  have "(42 + 191 * int (Suc (n + 256))) mod 256 = (42 + 191 * int (Suc n) + 256 * 191) mod 256"
    by (simp add: algebra_simps)
  also have "\<dots> = (42 + 191 * int (Suc n)) mod 256"
    by (rule mod_mult_self2)
  finally have "sint (Z256Generator_output (n + 256)) = sint (Z256Generator_output n)"
    by (simp only: Z256_sint_output)
  then show "Z256Generator_output (n + 256) = Z256Generator_output n" by (rule signed_word_eqI)
next
  assume p: "0 < p \<and> p < 256"
  show "Z256Generator_output (n + p) \<noteq> Z256Generator_output n"
  proof
    assume "Z256Generator_output (n + p) = Z256Generator_output n"
    then have "(42 + 191 * int (Suc (n + p))) mod 256 = (42 + 191 * int (Suc n)) mod 256"
      by (simp only: Z256_sint_output [symmetric])
    then have "(256::int) dvd (42 + 191 * int (Suc (n + p))) - (42 + 191 * int (Suc n))"
      by (simp only: mod_eq_dvd_iff)
    then have "(256::int) dvd 191 * int p" by (simp add: algebra_simps)
    then have "(0 + 191 * int p) mod 256 = (0 + 191 * 0) mod (256::int)"
      by simp
    moreover have "0 \<le> int p" "int p < 256" "(0::int) \<le> 0" "(0::int) < 256"
      using p by simp_all
    ultimately have "int p = 0" by (rule Z256_residue_inj [rotated 4])
    with p show False by simp
  qed
qed

theorem Z256Generator_period_witness:
  "state (snd (Z256Generator_calls 256 Z256Generator_init)) = 42 \<and>
   Z256Generator_output (0 + 256) = Z256Generator_output 0 \<and>
   Z256Generator_output (0 + 1) \<noteq> Z256Generator_output 0"
proof -
  have "(0::nat) < 1 \<and> (1::nat) < 256" by simp
  with Z256Generator_period [of 0 1] show ?thesis
    by (simp only: Z256Generator_init_def Z256Generator.simps) blast
qed

section \<open>Proofs: the recurrence\<close>

lemma Lcg_step_eq: "Lcg_step x = (261 * x + 1) mod 676000"
  by (simp add: Lcg_step_def Lcg_call_def linear_congruential_engine_call_def Let_def)

lemma Lcg_call_eq: "Lcg_call x = (Lcg_step x, Lcg_step x)"
  by (simp add: Lcg_step_def Lcg_call_def linear_congruential_engine_call_def Let_def)

lemma Lcg_step_less: "Lcg_step x < 676000"
  by (simp add: Lcg_step_eq)

lemma Lcg_funpow_less: "x < 676000 \<Longrightarrow> (Lcg_step ^^ n) x < 676000"
  by (cases n) (simp_all add: Lcg_step_less)

lemma geom_power: "260 * geom n + 1 = 261 ^ n"
  by (induction n) simp_all

lemma geom_add: "geom (i + j) = geom i + 261 ^ i * geom j"
  by (induction i) (simp_all add: algebra_simps)

lemma geom_double: "geom (2 * n) = geom n * (2 + 260 * geom n)"
proof -
  have "geom (n + n) = geom n + (260 * geom n + 1) * geom n"
    by (simp only: geom_add geom_power)
  moreover have "2 * n = n + n" by simp
  ultimately show ?thesis by (simp only: algebra_simps)
qed

lemma mod_affine: "(a * (y mod m) + c) mod m = (a * y + c) mod (m::nat)"
  by (metis mod_add_left_eq mod_mult_right_eq)

lemma Lcg_funpow_closed:
  "x < 676000 \<Longrightarrow> (Lcg_step ^^ n) x = (261 ^ n * x + geom n) mod 676000"
proof (induction n)
  case 0
  then show ?case by simp
next
  case (Suc n)
  have "(Lcg_step ^^ Suc n) x = Lcg_step ((Lcg_step ^^ n) x)"
    by simp
  also have "\<dots> = Lcg_step ((261 ^ n * x + geom n) mod 676000)"
    using Suc by simp
  also have "\<dots> = (261 * ((261 ^ n * x + geom n) mod 676000) + 1) mod 676000"
    by (rule Lcg_step_eq)
  also have "\<dots> = (261 * (261 ^ n * x + geom n) + 1) mod 676000"
    by (rule mod_affine)
  also have "261 * (261 ^ n * x + geom n) + 1 = 261 ^ Suc n * x + geom (Suc n)"
    by (simp add: algebra_simps)
  finally show ?case .
qed

lemma Lcg_funpow_zero: "(Lcg_step ^^ n) 0 = geom n mod 676000"
  using Lcg_funpow_closed [of 0 n] by simp

lemma geom_mod_correct: "geom_mod n = geom n mod 676000"
proof (induction n rule: geom_mod.induct)
  case (1 n)
  show ?case
  proof (cases "n = 0")
    case True
    then show ?thesis by (subst geom_mod.simps) simp
  next
    case False
    let ?h = "geom (n div 2)"
    have ih: "geom_mod (n div 2) = ?h mod 676000"
      using False by (rule "1.IH")
    have "(2 + 260 * (?h mod 676000)) mod 676000 = (2 + 260 * ?h) mod 676000"
      using mod_affine [of 260 ?h 676000 2] by (simp only: add.commute)
    then have "((?h mod 676000) * (2 + 260 * (?h mod 676000))) mod 676000
               = (?h * (2 + 260 * ?h)) mod 676000"
      by (intro mod_mult_cong) simp_all
    then have d: "(geom_mod (n div 2) * (2 + 260 * geom_mod (n div 2))) mod 676000
             = geom (2 * (n div 2)) mod 676000"
      by (simp only: ih geom_double)
    show ?thesis
    proof (cases "even n")
      case True
      then have "2 * (n div 2) = n" by simp
      with d True False show ?thesis
        by (subst geom_mod.simps) (simp add: Let_def)
    next
      case False
      then have n: "n = Suc (2 * (n div 2))" by presburger
      have "geom_mod n = (261 * (geom (2 * (n div 2)) mod 676000) + 1) mod 676000"
        using d False \<open>n \<noteq> 0\<close> by (subst geom_mod.simps) (simp add: Let_def)
      also have "\<dots> = (261 * geom (2 * (n div 2)) + 1) mod 676000"
        by (rule mod_affine)
      also have "\<dots> = geom (Suc (2 * (n div 2))) mod 676000"
        by simp
      finally show ?thesis using n by simp
    qed
  qed
qed

lemma geom_mod_values:
  "geom_mod 676000 = 0" "geom_mod 338000 = 338000"
  "geom_mod 135200 = 135200" "geom_mod 52000 = 52000"
  by (simp_all add: geom_mod.simps)

lemma geom_values:
  "geom 676000 mod 676000 = 0" "geom 338000 mod 676000 = 338000"
  "geom 135200 mod 676000 = 135200" "geom 52000 mod 676000 = 52000"
  using geom_mod_values by (simp_all only: geom_mod_correct)

subsection \<open>The call counts that bring the state 0 back\<close>

lemma Lcg_return_add:
  "(Lcg_step ^^ i) 0 = 0 \<Longrightarrow> (Lcg_step ^^ (j + i)) 0 = (Lcg_step ^^ j) 0"
  by (simp add: funpow_add)

lemma Lcg_return_mult:
  "(Lcg_step ^^ i) 0 = 0 \<Longrightarrow> (Lcg_step ^^ (k * i)) 0 = 0"
proof (induction k)
  case 0
  show ?case by simp
next
  case (Suc k)
  have "(Lcg_step ^^ (Suc k * i)) 0 = (Lcg_step ^^ (i + k * i)) 0" by simp
  also have "\<dots> = (Lcg_step ^^ i) 0"
    using Suc by (intro Lcg_return_add) simp
  finally show ?case using Suc.prems by simp
qed

lemma Lcg_return_mod:
  assumes "(Lcg_step ^^ a) 0 = 0" "(Lcg_step ^^ b) 0 = 0"
  shows "(Lcg_step ^^ (a mod b)) 0 = 0"
proof -
  have "(Lcg_step ^^ (a div b * b)) 0 = 0"
    using assms(2) by (rule Lcg_return_mult)
  then have "(Lcg_step ^^ (a mod b + a div b * b)) 0 = (Lcg_step ^^ (a mod b)) 0"
    by (rule Lcg_return_add)
  moreover have "a mod b + a div b * b = a" by simp
  ultimately show ?thesis using assms(1) by simp
qed

lemma Lcg_return_gcd:
  "(Lcg_step ^^ a) 0 = 0 \<Longrightarrow> (Lcg_step ^^ b) 0 = 0 \<Longrightarrow> (Lcg_step ^^ gcd a b) 0 = 0"
proof (induction a b rule: gcd_nat_induct)
  case (base m)
  then show ?case by simp
next
  case (step m n)
  have "(Lcg_step ^^ (m mod n)) 0 = 0"
    using step.prems by (rule Lcg_return_mod)
  with step.prems have "(Lcg_step ^^ gcd n (m mod n)) 0 = 0"
    by (intro step.IH)
  then show ?case by (simp only: gcd_red_nat [symmetric])
qed

subsection \<open>The divisors of 676000\<close>

lemma dvd_5_cases:
  fixes d :: nat
  assumes "d dvd 5"
  shows "d = 1 \<or> d = 5"
proof -
  have "d \<le> 5" using assms by (rule dvd_imp_le) simp
  then consider "d = 0" | "d = 1" | "d = 2" | "d = 3" | "d = 4" | "d = 5"
    by linarith
  then show ?thesis using assms by cases simp_all
qed

lemma coprime_5:
  fixes k :: nat
  assumes "\<not> 5 dvd k"
  shows "coprime k 5"
proof (rule coprimeI)
  fix d :: nat
  assume "d dvd k" "d dvd 5"
  then show "is_unit d" using assms dvd_5_cases [of d] by auto
qed

lemma dvd_13_cases:
  fixes d :: nat
  assumes "d dvd 13"
  shows "d = 1 \<or> d = 13"
proof (cases "d \<le> 6")
  case True
  then consider "d = 0" | "d = 1" | "d = 2" | "d = 3" | "d = 4" | "d = 5" | "d = 6"
    by linarith
  then show ?thesis using assms by cases simp_all
next
  case False
  moreover have "d \<le> 13" using assms by (rule dvd_imp_le) simp
  ultimately consider "d = 7" | "d = 8" | "d = 9" | "d = 10" | "d = 11" | "d = 12" | "d = 13"
    by linarith
  then show ?thesis using assms by cases simp_all
qed

lemma coprime_13:
  fixes k :: nat
  assumes "\<not> 13 dvd k"
  shows "coprime k 13"
proof (rule coprimeI)
  fix d :: nat
  assume "d dvd k" "d dvd 13"
  then show "is_unit d" using assms dvd_13_cases [of d] by auto
qed

lemma factor_of_676000:
  fixes k :: nat
  assumes "k dvd 676000" "k \<noteq> 1"
  shows "2 dvd k \<or> 5 dvd k \<or> 13 dvd k"
proof (rule ccontr)
  assume "\<not> ?thesis"
  then have "coprime k 2" "coprime k 5" "coprime k 13"
    by (simp_all add: coprime_5 coprime_13)
  then have "coprime k (2 ^ 5 * (5 ^ 3 * 13 ^ 2))"
    by (simp only: coprime_mult_right_iff coprime_power_right_iff) simp
  then have "coprime k 676000" by simp
  with assms(1) have "is_unit k" by (simp add: coprime_absorb_left)
  with assms(2) show False by simp
qed

lemma proper_divisor_of_676000:
  fixes g :: nat
  assumes "g dvd 676000" "g \<noteq> 676000"
  shows "g dvd 338000 \<or> g dvd 135200 \<or> g dvd 52000"
proof -
  from assms(1) obtain k where k: "676000 = g * k" ..
  with assms(2) have "k \<noteq> 1" by auto
  moreover from k have "k dvd 676000" by (metis dvd_triv_right)
  ultimately consider "2 dvd k" | "5 dvd k" | "13 dvd k"
    using factor_of_676000 by blast
  then show ?thesis
  proof cases
    case 1
    then obtain j where "k = 2 * j" ..
    with k have "338000 = g * j" by simp
    then have "g dvd 338000" by (rule dvdI)
    then show ?thesis by simp
  next
    case 2
    then obtain j where "k = 5 * j" ..
    with k have "135200 = g * j" by simp
    then have "g dvd 135200" by (rule dvdI)
    then show ?thesis by simp
  next
    case 3
    then obtain j where "k = 13 * j" ..
    with k have "52000 = g * j" by simp
    then have "g dvd 52000" by (rule dvdI)
    then show ?thesis by simp
  qed
qed

subsection \<open>The period\<close>

lemma Lcg_return_zero_iff: "(Lcg_step ^^ n) 0 = 0 \<longleftrightarrow> 676000 dvd n"
proof
  assume "676000 dvd n"
  then obtain k where "n = k * 676000" by (auto simp: mult.commute)
  moreover have "(Lcg_step ^^ 676000) 0 = 0"
    by (simp only: Lcg_funpow_zero geom_values)
  ultimately show "(Lcg_step ^^ n) 0 = 0" by (simp only: Lcg_return_mult)
next
  assume n: "(Lcg_step ^^ n) 0 = 0"
  have m: "(Lcg_step ^^ 676000) 0 = 0"
    by (simp only: Lcg_funpow_zero geom_values)
  let ?g = "gcd n 676000"
  have g: "(Lcg_step ^^ ?g) 0 = 0" using n m by (rule Lcg_return_gcd)
  have "?g = 676000"
  proof (rule ccontr)
    assume "?g \<noteq> 676000"
    moreover have "?g dvd 676000" by simp
    ultimately consider "?g dvd 338000" | "?g dvd 135200" | "?g dvd 52000"
      using proper_divisor_of_676000 by blast
    then show False
    proof cases
      case 1
      then obtain k where "338000 = k * ?g" by (auto simp: mult.commute elim: dvdE)
      with g have "(Lcg_step ^^ 338000) 0 = 0" by (simp only: Lcg_return_mult)
      then show False by (simp only: Lcg_funpow_zero geom_values)
    next
      case 2
      then obtain k where "135200 = k * ?g" by (auto simp: mult.commute elim: dvdE)
      with g have "(Lcg_step ^^ 135200) 0 = 0" by (simp only: Lcg_return_mult)
      then show False by (simp only: Lcg_funpow_zero geom_values)
    next
      case 3
      then obtain k where "52000 = k * ?g" by (auto simp: mult.commute elim: dvdE)
      with g have "(Lcg_step ^^ 52000) 0 = 0" by (simp only: Lcg_return_mult)
      then show False by (simp only: Lcg_funpow_zero geom_values)
    qed
  qed
  then show "676000 dvd n" by (metis gcd_dvd1)
qed

lemma geom_dvd_iff: "676000 dvd geom n \<longleftrightarrow> 676000 dvd n"
  using Lcg_return_zero_iff [of n] by (simp add: Lcg_funpow_zero mod_eq_0_iff_dvd)

lemma coprime_260: "coprime (676000 :: nat) (260 * x + 1)"
proof -
  have "coprime (260 * x + 1) (260 :: nat)"
  proof (rule coprimeI)
    fix d :: nat
    assume "d dvd 260 * x + 1" "d dvd 260"
    then have "d dvd (260 * x + 1) - 260 * x"
      by (intro dvd_diff_nat dvd_mult2)
    then show "is_unit d" by simp
  qed
  then have "coprime (260 * x + 1) ((260 :: nat) ^ 3)"
    by (simp only: coprime_power_right_iff) simp
  moreover have "(676000 :: nat) dvd 260 ^ 3" by simp
  ultimately have "coprime (260 * x + 1) (676000 :: nat)"
    by (rule coprime_divisors [OF dvd_refl, rotated 1])
  then show ?thesis by (rule coprime_imp_coprime) simp_all
qed

lemma add_mod_fixed:
  fixes x k m :: nat
  assumes "x < m"
  shows "(x + k) mod m = x \<longleftrightarrow> m dvd k"
proof
  assume "(x + k) mod m = x"
  then have "(x + k) mod m = x mod m" using assms by simp
  then have "m dvd (x + k) - x" by (simp add: mod_eq_dvd_iff_nat)
  then show "m dvd k" by simp
next
  assume "m dvd k"
  then show "(x + k) mod m = x" using assms by (auto elim!: dvdE)
qed

lemma Lcg_return_iff:
  assumes "x < 676000"
  shows "(Lcg_step ^^ n) x = x \<longleftrightarrow> 676000 dvd n"
proof -
  have "261 ^ n * x + geom n = x + geom n * (260 * x + 1)"
    by (simp add: geom_power [symmetric] algebra_simps)
  then have "(Lcg_step ^^ n) x = (x + geom n * (260 * x + 1)) mod 676000"
    using assms by (simp only: Lcg_funpow_closed)
  then have "(Lcg_step ^^ n) x = x \<longleftrightarrow> 676000 dvd geom n * (260 * x + 1)"
    using assms by (simp only: add_mod_fixed)
  also have "\<dots> \<longleftrightarrow> 676000 dvd geom n"
    using coprime_260 by (rule coprime_dvd_mult_left_iff)
  finally show ?thesis by (simp only: geom_dvd_iff)
qed

section \<open>Proofs: the digits\<close>

lemma sint_word_of_nat_small:
  "k < 2 ^ 31 \<Longrightarrow> sint (word_of_nat k :: cint) = int k"
  using sint_word_of_int_small [of "int k"] by simp

lemma sdiv_nonneg: "0 \<le> a \<Longrightarrow> 0 \<le> b \<Longrightarrow> a sdiv b = a div (b::int)"
  by (cases "a = 0"; cases "b = 0") (simp_all add: signed_divide_int_def sgn_if)

lemma int_quot_small:
  assumes "k < 2 ^ 31" "sint b = int r"
  shows "int_quot (word_of_nat k) b = word_of_nat (k div r)"
proof -
  have "int k sdiv int r = int (k div r)"
    by (simp add: sdiv_nonneg zdiv_int)
  then show ?thesis
    using assms by (simp only: int_quot_def sint_word_of_nat_small of_int_of_nat_eq)
qed

lemma int_rem_small:
  assumes "k < 2 ^ 31" "sint b = int r"
  shows "int_rem (word_of_nat k) b = word_of_nat (k mod r)"
proof -
  have "int k smod int r = int (k mod r)"
    by (simp add: smod_mod_positive zmod_int)
  then show ?thesis
    using assms by (simp only: int_rem_def sint_word_of_nat_small of_int_of_nat_eq)
qed

lemma char_of_offset:
  assumes "d < 128"
  shows "char_of (uint (of_char off + (word_of_nat d :: cint))) = char_of (of_char off + d :: nat)"
proof -
  have "of_char off + (word_of_nat d :: cint) = word_of_nat (of_char off + d)"
    by (simp only: of_nat_add of_nat_of_char)
  moreover have "(of_char off :: nat) + d < 256 + 128"
    using nat_of_char_less_256 assms by (rule add_strict_mono)
  then have "of_char off + d < 2 ^ 32" by simp
  then have "unat (word_of_nat (of_char off + d) :: cint) = of_char off + d"
    unfolding unat_of_nat by simp
  then have "uint (word_of_nat (of_char off + d) :: cint) = int (of_char off + d)"
    by (simp only: uint_nat)
  ultimately show ?thesis by (simp only: char_of_nat)
qed

lemma add_digit_small:
  assumes "k < 2 ^ 31" "sint b = int r" "0 < r" "r \<le> 128"
  shows "add_digit (word_of_nat k) b off serial
         = (word_of_nat (k div r), serial @ [char_of (of_char off + k mod r :: nat)])"
proof -
  have "k mod r < 128" using assms(3,4) by (meson mod_less_divisor less_le_trans)
  then show ?thesis
    using assms by (simp add: add_digit_def Let_def int_quot_small int_rem_small char_of_offset)
qed

lemma digits_mixed_radix:
  assumes "v < 2 ^ 31"
  shows "SerialNumberGenerator_digits (word_of_nat v) = mixed_radix [26, 26, 10, 10, 10] ''AA000'' v"
proof -
  have b: "sint (26 :: cint) = int 26" "sint (10 :: cint) = int 10" by simp_all
  have d: "v div 26 < 2 ^ 31" "v div 26 div 26 < 2 ^ 31" "v div 26 div 26 div 10 < 2 ^ 31"
    "v div 26 div 26 div 10 div 10 < 2 ^ 31"
    using assms by (simp_all add: div_le_dividend [THEN le_less_trans])
  show ?thesis
    unfolding SerialNumberGenerator_digits_def Let_def
    using assms d by (simp add: add_digit_small [OF _ b(1)] add_digit_small [OF _ b(2)])
qed

lemma mixed_radix_serial:
  "mixed_radix [26, 26, 10, 10, 10] ''AA000'' v =
     [char_of (65 + v mod 26), char_of (65 + v div 26 mod 26),
      char_of (48 + v div 26 div 26 mod 10),
      char_of (48 + v div 26 div 26 div 10 mod 10),
      char_of (48 + v div 26 div 26 div 10 div 10 mod 10)]"
  by simp

lemma of_char_char_of_small: "n < 256 \<Longrightarrow> of_char (char_of (n :: nat)) = n"
  by (simp add: of_char_of)

lemma is_upper_char_of: "d < 26 \<Longrightarrow> is_upper (char_of (65 + d :: nat))"
  by (simp add: is_upper_def of_char_char_of_small)

lemma is_digit_char_of: "d < 10 \<Longrightarrow> is_digit (char_of (48 + d :: nat))"
  by (simp add: is_digit_def of_char_char_of_small)

lemma serial_format_mixed_radix:
  "serial_format (mixed_radix [26, 26, 10, 10, 10] ''AA000'' v)"
  unfolding mixed_radix_serial by (simp add: is_upper_char_of is_digit_char_of)

lemma char_of_add_inj:
  fixes a b off :: nat
  assumes "char_of (off + a) = char_of (off + b)" "off + a < 256" "off + b < 256"
  shows "a = b"
proof -
  have "of_char (char_of (off + a)) = (of_char (char_of (off + b)) :: nat)"
    by (simp only: assms(1))
  then have "off + a = off + b"
    using assms(2,3) by (simp only: of_char_char_of_small)
  then show ?thesis by simp
qed

lemma div_mod_eqI:
  fixes x y r :: nat
  assumes "x mod r = y mod r" "x div r = y div r"
  shows "x = y"
proof -
  have "x = x div r * r + x mod r" by simp
  also have "\<dots> = y div r * r + y mod r" by (simp only: assms)
  also have "\<dots> = y" by simp
  finally show ?thesis .
qed

lemma top_quotient: "v < 676000 \<Longrightarrow> v div 26 div 26 div 10 div 10 div 10 = (0::nat)"
  by (simp add: div_mult2_eq [symmetric])

lemma mixed_radix_inj:
  assumes "v < 676000" "w < 676000"
    and eq: "mixed_radix [26, 26, 10, 10, 10] ''AA000'' v = mixed_radix [26, 26, 10, 10, 10] ''AA000'' w"
  shows "v = w"
proof -
  from eq have c:
    "char_of (65 + v mod 26) = char_of (65 + w mod 26)"
    "char_of (65 + v div 26 mod 26) = char_of (65 + w div 26 mod 26)"
    "char_of (48 + v div 26 div 26 mod 10) = char_of (48 + w div 26 div 26 mod 10)"
    "char_of (48 + v div 26 div 26 div 10 mod 10) = char_of (48 + w div 26 div 26 div 10 mod 10)"
    "char_of (48 + v div 26 div 26 div 10 div 10 mod 10)
       = char_of (48 + w div 26 div 26 div 10 div 10 mod 10)"
    unfolding mixed_radix_serial by simp_all
  have d0: "v mod 26 = w mod 26"
    using c(1) by (rule char_of_add_inj) simp_all
  have d1: "v div 26 mod 26 = w div 26 mod 26"
    using c(2) by (rule char_of_add_inj) simp_all
  have d2: "v div 26 div 26 mod 10 = w div 26 div 26 mod 10"
    using c(3) by (rule char_of_add_inj) simp_all
  have d3: "v div 26 div 26 div 10 mod 10 = w div 26 div 26 div 10 mod 10"
    using c(4) by (rule char_of_add_inj) simp_all
  have d4: "v div 26 div 26 div 10 div 10 mod 10 = w div 26 div 26 div 10 div 10 mod 10"
    using c(5) by (rule char_of_add_inj) simp_all
  have "v div 26 div 26 div 10 div 10 div 10 = w div 26 div 26 div 10 div 10 div 10"
    using assms(1,2) by (simp only: top_quotient)
  with d4 have "v div 26 div 26 div 10 div 10 = w div 26 div 26 div 10 div 10"
    by (rule div_mod_eqI)
  with d3 have "v div 26 div 26 div 10 = w div 26 div 26 div 10"
    by (rule div_mod_eqI)
  with d2 have "v div 26 div 26 = w div 26 div 26"
    by (rule div_mod_eqI)
  with d1 have "v div 26 = w div 26"
    by (rule div_mod_eqI)
  with d0 show ?thesis
    by (rule div_mod_eqI)
qed

lemma char_of_sub_add:
  fixes off :: nat
  assumes "off \<le> of_char c"
  shows "char_of (off + (of_char c - off)) = c"
proof -
  have "off + (of_char c - off) = (of_char c :: nat)" using assms by simp
  then show ?thesis by (simp only: char_of_char)
qed

lemma digit_bound:
  fixes d r x n :: nat
  assumes "d < r" "x < n"
  shows "d + r * x < r * n"
proof -
  have "d + r * x < r * Suc x" using assms(1) by simp
  also have "\<dots> \<le> r * n" using assms(2) by (intro mult_le_mono2) simp
  finally show ?thesis .
qed

lemma digit_mod: "d < r \<Longrightarrow> (d + r * x) mod r = (d::nat)"
  by simp

lemma digit_div: "d < r \<Longrightarrow> (d + r * x) div r = (x::nat)"
  by simp

lemma mixed_radix_surj:
  assumes "serial_format s"
  shows "\<exists>v<676000. mixed_radix [26, 26, 10, 10, 10] ''AA000'' v = s"
proof -
  from assms obtain a b c d e where s: "s = [a, b, c, d, e]"
    and f: "is_upper a" "is_upper b" "is_digit c" "is_digit d" "is_digit e"
    by (auto elim: serial_format.elims)
  define da db dc dd de :: nat where "da = of_char a - 65" and "db = of_char b - 65"
    and "dc = of_char c - 48" and "dd = of_char d - 48" and "de = of_char e - 48"
  have r: "da < 26" "db < 26" "dc < 10" "dd < 10" "de < 10"
    using f unfolding is_upper_def is_digit_def da_def db_def dc_def dd_def de_def
    by linarith+
  have ch: "char_of (65 + da) = a" "char_of (65 + db) = b" "char_of (48 + dc) = c"
    "char_of (48 + dd) = d" "char_of (48 + de) = e"
    using f unfolding is_upper_def is_digit_def da_def db_def dc_def dd_def de_def
    by (simp_all only: char_of_sub_add)
  define v where "v = da + 26 * (db + 26 * (dc + 10 * (dd + 10 * de)))"
  have "v < 26 * (26 * (10 * (10 * 10)))"
    unfolding v_def by (intro digit_bound r)
  then have "v < 676000" by simp
  moreover have "v mod 26 = da" "v div 26 mod 26 = db" "v div 26 div 26 mod 10 = dc"
    "v div 26 div 26 div 10 mod 10 = dd" "v div 26 div 26 div 10 div 10 mod 10 = de"
    unfolding v_def by (simp_all only: digit_div digit_mod mod_less r)
  then have "mixed_radix [26, 26, 10, 10, 10] ''AA000'' v = s"
    unfolding mixed_radix_serial s by (simp only: ch)
  ultimately show ?thesis by blast
qed

lemma digits_eq_mixed_radix:
  "v < 676000 \<Longrightarrow>
   SerialNumberGenerator_digits (word_of_nat v) = mixed_radix [26, 26, 10, 10, 10] ''AA000'' v"
  by (rule digits_mixed_radix) simp

lemma digits_bij:
  "bij_betw (\<lambda>v. SerialNumberGenerator_digits (word_of_nat v)) {0..<676000} {s. serial_format s}"
  unfolding bij_betw_def
proof (intro conjI inj_onI set_eqI iffI)
  fix v w :: nat
  assume "v \<in> {0..<676000}" "w \<in> {0..<676000}"
    and "SerialNumberGenerator_digits (word_of_nat v) = SerialNumberGenerator_digits (word_of_nat w)"
  then show "v = w"
    by (intro mixed_radix_inj) (simp_all add: digits_eq_mixed_radix)
next
  fix s
  assume "s \<in> (\<lambda>v. SerialNumberGenerator_digits (word_of_nat v)) ` {0..<676000}"
  then obtain v where "v < 676000" and "s = SerialNumberGenerator_digits (word_of_nat v)"
    by auto
  then have "s = mixed_radix [26, 26, 10, 10, 10] ''AA000'' v"
    by (simp only: digits_eq_mixed_radix)
  then show "s \<in> {s. serial_format s}"
    by (simp only: mem_Collect_eq serial_format_mixed_radix)
next
  fix s
  assume "s \<in> {s. serial_format s}"
  then obtain v where "v < 676000" "mixed_radix [26, 26, 10, 10, 10] ''AA000'' v = s"
    using mixed_radix_surj by blast
  then have "s = SerialNumberGenerator_digits (word_of_nat v)" "v \<in> {0..<676000}"
    by (simp_all only: digits_eq_mixed_radix atLeastLessThan_iff) simp
  then show "s \<in> (\<lambda>v. SerialNumberGenerator_digits (word_of_nat v)) ` {0..<676000}"
    by (rule image_eqI)
qed

lemma char_of_JS566:
  "char_of (74::nat) = CHR ''J''" "char_of (83::nat) = CHR ''S''"
  "char_of (53::nat) = CHR ''5''" "char_of (54::nat) = CHR ''6''"
  using char_of_char [of "CHR ''J''", where ?'a = nat] char_of_char [of "CHR ''S''", where ?'a = nat]
    char_of_char [of "CHR ''5''", where ?'a = nat] char_of_char [of "CHR ''6''", where ?'a = nat]
  by simp_all

lemma mixed_radix_450017: "mixed_radix [26, 26, 10, 10, 10] ''AA000'' 450017 = ''JS566''"
  by (simp add: char_of_JS566)

lemma Lcg_seed_123456: "Lcg_seed 123456 = 123456"
  by (simp add: Lcg_seed_def linear_congruential_engine_seed_def)

lemma Serial_next_eq:
  "SerialNumberGenerator_next g =
     (mixed_radix [26, 26, 10, 10, 10] ''AA000'' (Lcg_step (lcg g)), g\<lparr>lcg := Lcg_step (lcg g)\<rparr>)"
  by (simp only: SerialNumberGenerator_next_def Lcg_call_eq Let_def split_conv
      digits_eq_mixed_radix [OF Lcg_step_less])

text \<open>
  Claim C3. For every generator object \<open>g\<close>, a call of \<open>next\<close> draws one value
  \<open>v = (261 * lcg g + 1) mod 676000\<close> from the engine, which is below 676000 and becomes
  the engine's state, and returns the mixed-radix decomposition of \<open>v\<close> over the radices
  26, 26, 10, 10, 10 with the offsets \<open>A\<close>, \<open>A\<close>, \<open>0\<close>, \<open>0\<close>, \<open>0\<close>, low-order digit
  first: the five characters stand in the order of their extraction, the character of
  \<open>v mod 26\<close> first.
\<close>
theorem SerialNumberGenerator_next_mixed_radix:
  "(let v = fst (Lcg_call (lcg g)) in
     v = (261 * lcg g + 1) mod 676000 \<and> v < 676000 \<and>
     lcg (snd (SerialNumberGenerator_next g)) = snd (Lcg_call (lcg g)) \<and>
     snd (Lcg_call (lcg g)) = v \<and>
     fst (SerialNumberGenerator_next g) = mixed_radix [26, 26, 10, 10, 10] ''AA000'' v \<and>
     fst (SerialNumberGenerator_next g) =
       [char_of (of_char (CHR ''A'') + v mod 26 :: nat),
        char_of (of_char (CHR ''A'') + v div 26 mod 26 :: nat),
        char_of (of_char (CHR ''0'') + v div 26 div 26 mod 10 :: nat),
        char_of (of_char (CHR ''0'') + v div 26 div 26 div 10 mod 10 :: nat),
        char_of (of_char (CHR ''0'') + v div 26 div 26 div 10 div 10 mod 10 :: nat)])"
proof -
  have v: "fst (Lcg_call (lcg g)) = Lcg_step (lcg g)" "snd (Lcg_call (lcg g)) = Lcg_step (lcg g)"
    by (simp_all add: Lcg_call_eq)
  have "Lcg_step (lcg g) = (261 * lcg g + 1) mod 676000" by (rule Lcg_step_eq)
  moreover have "Lcg_step (lcg g) < 676000" by (rule Lcg_step_less)
  moreover have "lcg (snd (SerialNumberGenerator_next g)) = Lcg_step (lcg g)"
    by (simp add: Serial_next_eq)
  moreover have "fst (SerialNumberGenerator_next g)
      = mixed_radix [26, 26, 10, 10, 10] ''AA000'' (Lcg_step (lcg g))"
    by (simp add: Serial_next_eq)
  moreover have "mixed_radix [26, 26, 10, 10, 10] ''AA000'' (Lcg_step (lcg g)) =
       [char_of (of_char (CHR ''A'') + Lcg_step (lcg g) mod 26 :: nat),
        char_of (of_char (CHR ''A'') + Lcg_step (lcg g) div 26 mod 26 :: nat),
        char_of (of_char (CHR ''0'') + Lcg_step (lcg g) div 26 div 26 mod 10 :: nat),
        char_of (of_char (CHR ''0'') + Lcg_step (lcg g) div 26 div 26 div 10 mod 10 :: nat),
        char_of (of_char (CHR ''0'') + Lcg_step (lcg g) div 26 div 26 div 10 div 10 mod 10 :: nat)]"
    by (simp only: mixed_radix.simps)
  ultimately show ?thesis
    unfolding Let_def v by (intro conjI) simp_all
qed

text \<open>
  Claim C4. The digit decomposition of \<open>next\<close> is a bijection from the integers of
  \<open>[0, 676000)\<close> onto the strings made of two uppercase letters followed by three decimal
  digits; on this range it is the mixed-radix decomposition of the specification. The
  product of the radices is 676000, the modulus of the engine, so every value drawn is in
  the range.
\<close>
theorem SerialNumberGenerator_digits_bijection:
  "bij_betw (\<lambda>v. SerialNumberGenerator_digits (word_of_nat v)) {0..<676000} {s. serial_format s} \<and>
   (\<forall>v. v < 676000 \<longrightarrow> SerialNumberGenerator_digits (word_of_nat v)
          = mixed_radix [26, 26, 10, 10, 10] ''AA000'' v) \<and>
   prod_list [26, 26, 10, 10, 10] = (676000 :: nat) \<and>
   fst (Lcg_call x) < prod_list [26, 26, 10, 10, 10]"
proof (intro conjI allI impI)
  show "bij_betw (\<lambda>v. SerialNumberGenerator_digits (word_of_nat v)) {0..<676000}
      {s. serial_format s}"
    by (rule digits_bij)
  show "prod_list [26, 26, 10, 10, 10] = (676000 :: nat)" by simp
  show "fst (Lcg_call x) < prod_list [26, 26, 10, 10, 10]"
    by (simp add: Lcg_call_eq Lcg_step_less)
next
  fix v :: nat
  assume "v < 676000"
  then show "SerialNumberGenerator_digits (word_of_nat v)
      = mixed_radix [26, 26, 10, 10, 10] ''AA000'' v"
    by (rule digits_eq_mixed_radix)
qed

theorem SerialNumberGenerator_digits_bijection_witness:
  "SerialNumberGenerator_digits (word_of_nat 450017) = ''JS566'' \<and>
   inj_on (\<lambda>v. SerialNumberGenerator_digits (word_of_nat v)) {0..<676000} \<and>
   (\<lambda>v. SerialNumberGenerator_digits (word_of_nat v)) ` {0..<676000} = {s. serial_format s}"
proof -
  have "(450017 :: nat) < 676000" by simp
  with SerialNumberGenerator_digits_bijection [of 0]
  have "SerialNumberGenerator_digits (word_of_nat 450017)
          = mixed_radix [26, 26, 10, 10, 10] ''AA000'' 450017"
    and "bij_betw (\<lambda>v. SerialNumberGenerator_digits (word_of_nat v)) {0..<676000}
          {s. serial_format s}"
    by blast+
  then show ?thesis by (simp only: bij_betw_def mixed_radix_450017)
qed

text \<open>
  Claim C7. The engine of a fresh serial generator holds 123456; its first value is
  \<open>(261 * 123456 + 1) mod 676000 = 450017\<close>, and the first identifier returned is the
  mixed-radix decomposition of 450017, the string \<open>JS566\<close>.
\<close>
theorem SerialNumberGenerator_first_output:
  "lcg SerialNumberGenerator_init = 123456 \<and>
   fst (Lcg_call (lcg SerialNumberGenerator_init)) = (261 * 123456 + 1) mod 676000 \<and>
   fst (Lcg_call (lcg SerialNumberGenerator_init)) = 450017 \<and>
   fst (SerialNumberGenerator_next SerialNumberGenerator_init)
     = mixed_radix [26, 26, 10, 10, 10] ''AA000'' 450017 \<and>
   fst (SerialNumberGenerator_next SerialNumberGenerator_init) = ''JS566''"
proof -
  have i: "lcg SerialNumberGenerator_init = 123456"
    by (simp add: SerialNumberGenerator_init_def Lcg_seed_123456)
  have s: "Lcg_step 123456 = 450017" by (simp add: Lcg_step_eq)
  have n: "fst (SerialNumberGenerator_next SerialNumberGenerator_init)
     = mixed_radix [26, 26, 10, 10, 10] ''AA000'' 450017"
    by (simp only: Serial_next_eq i s fst_conv)
  have "fst (SerialNumberGenerator_next SerialNumberGenerator_init) = ''JS566''"
    by (simp only: n mixed_radix_450017)
  with i s n show ?thesis by (simp only: Lcg_call_eq fst_conv) simp
qed

section \<open>Proofs: the serial numbers over a full period\<close>

lemma Serial_calls_eq:
  "SerialNumberGenerator_calls n g =
     (map (\<lambda>k. mixed_radix [26, 26, 10, 10, 10] ''AA000'' ((Lcg_step ^^ Suc k) (lcg g))) [0..<n],
      g\<lparr>lcg := (Lcg_step ^^ n) (lcg g)\<rparr>)"
proof (induction n arbitrary: g)
  case 0
  show ?case by simp
next
  case (Suc n)
  let ?g' = "g\<lparr>lcg := Lcg_step (lcg g)\<rparr>"
  have s: "(Lcg_step ^^ k) (Lcg_step (lcg g)) = (Lcg_step ^^ Suc k) (lcg g)" for k
    by (simp only: funpow_Suc_right o_apply)
  have "SerialNumberGenerator_calls (Suc n) g =
      (mixed_radix [26, 26, 10, 10, 10] ''AA000'' (Lcg_step (lcg g))
         # fst (SerialNumberGenerator_calls n ?g'),
       snd (SerialNumberGenerator_calls n ?g'))"
    by (simp only: SerialNumberGenerator_calls.simps Serial_next_eq Let_def split_beta fst_conv snd_conv)
  also have "SerialNumberGenerator_calls n ?g' =
     (map (\<lambda>k. mixed_radix [26, 26, 10, 10, 10] ''AA000'' ((Lcg_step ^^ Suc (Suc k)) (lcg g))) [0..<n],
      g\<lparr>lcg := (Lcg_step ^^ Suc n) (lcg g)\<rparr>)"
    unfolding Suc.IH [of ?g'] by (simp add: s del: funpow.simps)
  finally show ?case
    by (simp only: map_upt_Suc fst_conv snd_conv) simp
qed

lemma Lcg_states_differ:
  assumes "x < 676000" "i < j" "j < i + 676000"
  shows "(Lcg_step ^^ i) x \<noteq> (Lcg_step ^^ j) x"
proof
  assume e: "(Lcg_step ^^ i) x = (Lcg_step ^^ j) x"
  let ?y = "(Lcg_step ^^ i) x"
  have y: "?y < 676000" using assms(1) by (rule Lcg_funpow_less)
  have "j = (j - i) + i" using assms(2) by simp
  then have "(Lcg_step ^^ j) x = (Lcg_step ^^ (j - i)) ?y"
    by (metis funpow_add o_apply)
  with e have "(Lcg_step ^^ (j - i)) ?y = ?y" by simp
  then have "676000 dvd j - i" using y by (simp only: Lcg_return_iff)
  then have "676000 \<le> j - i" using assms(2) by (intro dvd_imp_le) simp_all
  with assms(3) show False by simp
qed

lemma Lcg_states_inj:
  assumes "x < 676000"
  shows "inj_on (\<lambda>k. (Lcg_step ^^ Suc k) x) {0..<676000}"
proof (rule inj_onI)
  fix i j :: nat
  assume ij: "i \<in> {0..<676000}" "j \<in> {0..<676000}"
    and e: "(Lcg_step ^^ Suc i) x = (Lcg_step ^^ Suc j) x"
  show "i = j"
  proof (rule ccontr)
    assume "i \<noteq> j"
    then consider "i < j" | "j < i" by linarith
    then show False
    proof cases
      case 1
      then have "(Lcg_step ^^ Suc i) x \<noteq> (Lcg_step ^^ Suc j) x"
        using ij by (intro Lcg_states_differ assms) simp_all
      with e show False by simp
    next
      case 2
      then have "(Lcg_step ^^ Suc j) x \<noteq> (Lcg_step ^^ Suc i) x"
        using ij by (intro Lcg_states_differ assms) simp_all
      with e show False by simp
    qed
  qed
qed

lemma Serial_outputs_inj:
  assumes "x < 676000"
  shows "inj_on (\<lambda>k. mixed_radix [26, 26, 10, 10, 10] ''AA000'' ((Lcg_step ^^ Suc k) x)) {0..<676000}"
proof (rule inj_onI)
  fix i j :: nat
  assume ij: "i \<in> {0..<676000}" "j \<in> {0..<676000}"
    and e: "mixed_radix [26, 26, 10, 10, 10] ''AA000'' ((Lcg_step ^^ Suc i) x)
          = mixed_radix [26, 26, 10, 10, 10] ''AA000'' ((Lcg_step ^^ Suc j) x)"
  have "(Lcg_step ^^ Suc i) x < 676000" "(Lcg_step ^^ Suc j) x < 676000"
    using assms by (rule Lcg_funpow_less)+
  then have "(Lcg_step ^^ Suc i) x = (Lcg_step ^^ Suc j) x"
    using e by (rule mixed_radix_inj)
  with Lcg_states_inj [OF assms] show "i = j"
    using ij by (rule inj_onD)
qed

lemma test_SerialNumberGenerator_loop_set:
  "i \<le> 676000 \<Longrightarrow>
   test_SerialNumberGenerator_loop i s g
     = s \<union> set (fst (SerialNumberGenerator_calls (676000 - i) g))"
proof (induction i s g rule: test_SerialNumberGenerator_loop.induct)
  case (1 i s g)
  show ?case
  proof (cases "i < 676000")
    case True
    obtain v g' where n: "SerialNumberGenerator_next g = (v, g')"
      by (cases "SerialNumberGenerator_next g")
    from True have d: "676000 - i = Suc (676000 - (i + 1))" by simp
    have "test_SerialNumberGenerator_loop i s g
          = test_SerialNumberGenerator_loop (i + 1) (insert v s) g'"
      using True n by simp
    also have "\<dots> = insert v s \<union> set (fst (SerialNumberGenerator_calls (676000 - (i + 1)) g'))"
      using True n by (intro "1.IH") simp_all
    also have "\<dots> = s \<union> set (fst (SerialNumberGenerator_calls (676000 - i) g))"
      by (simp only: d SerialNumberGenerator_calls.simps n) (simp add: split_beta)
    finally show ?thesis .
  next
    case False
    with "1.prems" have "i = 676000" by simp
    then show ?thesis by simp
  qed
qed

lemma Serial_init_lcg: "lcg SerialNumberGenerator_init = 123456"
  by (simp add: SerialNumberGenerator_init_def Lcg_seed_123456)

lemma Serial_outputs_eq:
  "fst (SerialNumberGenerator_calls n SerialNumberGenerator_init) =
     map (\<lambda>k. mixed_radix [26, 26, 10, 10, 10] ''AA000'' ((Lcg_step ^^ Suc k) 123456)) [0..<n]"
  by (simp only: Serial_calls_eq fst_conv Serial_init_lcg)

text \<open>
  Claim C1. The engine of the serial generator is seeded at 123456 and a call replaces its
  state \<open>x\<close> by \<open>(261 * x + 1) mod 676000\<close>, which it returns. The recurrence has period
  exactly 676000: from every state below 676000, 676000 steps lead back to that state, and
  no smaller positive number of steps does.
\<close>
theorem Lcg_period:
  "lcg SerialNumberGenerator_init = 123456 \<and>
   Lcg_call x = ((261 * x + 1) mod 676000, (261 * x + 1) mod 676000) \<and>
   (x < 676000 \<longrightarrow>
      (Lcg_step ^^ 676000) x = x \<and>
      \<not> (\<exists>n. 0 < n \<and> n < 676000 \<and> (Lcg_step ^^ n) x = x))"
proof (intro conjI impI)
  show "lcg SerialNumberGenerator_init = 123456" by (rule Serial_init_lcg)
  show "Lcg_call x = ((261 * x + 1) mod 676000, (261 * x + 1) mod 676000)"
    by (simp only: Lcg_call_eq Lcg_step_eq)
next
  assume x: "x < 676000"
  show "(Lcg_step ^^ 676000) x = x"
    using x by (simp only: Lcg_return_iff dvd_refl)
  show "\<not> (\<exists>n. 0 < n \<and> n < 676000 \<and> (Lcg_step ^^ n) x = x)"
  proof
    assume "\<exists>n. 0 < n \<and> n < 676000 \<and> (Lcg_step ^^ n) x = x"
    then obtain n where n: "0 < n" "n < 676000" "(Lcg_step ^^ n) x = x" by blast
    from n(3) have "676000 dvd n" using x by (simp only: Lcg_return_iff)
    then have "676000 \<le> n" using n(1) by (rule dvd_imp_le)
    with n(2) show False by simp
  qed
qed

theorem Lcg_period_witness:
  "(Lcg_step ^^ 676000) 123456 = 123456 \<and> (Lcg_step ^^ 1) 123456 \<noteq> 123456"
proof -
  have "(123456 :: nat) < 676000" by simp
  with Lcg_period [of 123456]
  have a: "(Lcg_step ^^ 676000) 123456 = 123456"
    and b: "\<not> (\<exists>n. 0 < n \<and> n < 676000 \<and> (Lcg_step ^^ n) 123456 = 123456)"
    by blast+
  have "(Lcg_step ^^ 1) 123456 \<noteq> 123456"
  proof
    assume "(Lcg_step ^^ 1) 123456 = 123456"
    then have "(0::nat) < 1 \<and> (1::nat) < 676000 \<and> (Lcg_step ^^ 1) 123456 = 123456"
      by simp
    then have "\<exists>n. 0 < n \<and> n < 676000 \<and> (Lcg_step ^^ n) 123456 = 123456" by (rule exI)
    with b show False ..
  qed
  with a show ?thesis ..
qed

text \<open>
  Claim C2. 676000 calls of \<open>next\<close> on a fresh serial generator return 676000 identifiers
  that are pairwise distinct, each one made of two uppercase ASCII letters followed by three
  ASCII decimal digits. The assertion of \<^verbatim>\<open>test_SerialNumberGenerator\<close> holds.
\<close>
theorem SerialNumberGenerator_full_cycle:
  "length (fst (SerialNumberGenerator_calls 676000 SerialNumberGenerator_init)) = 676000 \<and>
   distinct (fst (SerialNumberGenerator_calls 676000 SerialNumberGenerator_init)) \<and>
   list_all serial_format (fst (SerialNumberGenerator_calls 676000 SerialNumberGenerator_init)) \<and>
   test_SerialNumberGenerator"
proof -
  let ?outs = "fst (SerialNumberGenerator_calls 676000 SerialNumberGenerator_init)"
  have len: "length ?outs = 676000" by (simp add: Serial_outputs_eq)
  have "(123456 :: nat) < 676000" by simp
  then have "inj_on (\<lambda>k. mixed_radix [26, 26, 10, 10, 10] ''AA000'' ((Lcg_step ^^ Suc k) 123456))
      (set [0..<676000])"
    using Serial_outputs_inj [of 123456] by (simp only: set_upt)
  then have dist: "distinct ?outs"
    by (simp only: Serial_outputs_eq distinct_map distinct_upt simp_thms)
  have fmt: "list_all serial_format ?outs"
    by (simp only: Serial_outputs_eq list_all_iff set_map ball_simps serial_format_mixed_radix)
       simp
  have "test_SerialNumberGenerator_loop 0 {} SerialNumberGenerator_init = set ?outs"
    by (simp add: test_SerialNumberGenerator_loop_set del: test_SerialNumberGenerator_loop.simps)
  then have "test_SerialNumberGenerator"
    using dist len by (simp add: test_SerialNumberGenerator_def distinct_card)
  with len dist fmt show ?thesis by simp
qed

text \<open>
  Claim C8. Both generators are deterministic: two objects in the state of a fresh object,
  each called \<open>n\<close> times, return the same values (and end in the same state), for every
  \<open>n\<close>. The values returned are a function of the seed and the constants alone: value
  number \<open>k + 1\<close> of the cyclic counter is \<open>(42 + 191 * (k + 1)) mod 256\<close>, and identifier
  number \<open>k + 1\<close> is the decomposition of the state reached from 123456 by \<open>k + 1\<close> steps
  of the recurrence.
\<close>
theorem generators_deterministic:
  "(g1 = Z256Generator_init \<and> g2 = Z256Generator_init \<longrightarrow>
      Z256Generator_calls n g1 = Z256Generator_calls n g2) \<and>
   (h1 = SerialNumberGenerator_init \<and> h2 = SerialNumberGenerator_init \<longrightarrow>
      SerialNumberGenerator_calls n h1 = SerialNumberGenerator_calls n h2) \<and>
   map sint (fst (Z256Generator_calls n Z256Generator_init))
     = map (\<lambda>k. (42 + 191 * int (Suc k)) mod 256) [0..<n] \<and>
   fst (SerialNumberGenerator_calls n SerialNumberGenerator_init)
     = map (\<lambda>k. mixed_radix [26, 26, 10, 10, 10] ''AA000'' ((Lcg_step ^^ Suc k) 123456)) [0..<n]"
proof (intro conjI impI)
  assume "g1 = Z256Generator_init \<and> g2 = Z256Generator_init"
  then show "Z256Generator_calls n g1 = Z256Generator_calls n g2" by simp
next
  assume "h1 = SerialNumberGenerator_init \<and> h2 = SerialNumberGenerator_init"
  then show "SerialNumberGenerator_calls n h1 = SerialNumberGenerator_calls n h2" by simp
next
  show "map sint (fst (Z256Generator_calls n Z256Generator_init))
     = map (\<lambda>k. (42 + 191 * int (Suc k)) mod 256) [0..<n]"
    by (simp only: Z256_calls_map map_map comp_def Z256_sint_output)
next
  show "fst (SerialNumberGenerator_calls n SerialNumberGenerator_init)
     = map (\<lambda>k. mixed_radix [26, 26, 10, 10, 10] ''AA000'' ((Lcg_step ^^ Suc k) 123456)) [0..<n]"
    by (rule Serial_outputs_eq)
qed

theorem generators_deterministic_witness:
  "Z256Generator_calls 2 Z256Generator_init = Z256Generator_calls 2 Z256Generator_init \<and>
   SerialNumberGenerator_calls 2 SerialNumberGenerator_init
     = SerialNumberGenerator_calls 2 SerialNumberGenerator_init \<and>
   map sint (fst (Z256Generator_calls 2 Z256Generator_init)) = [233, 168] \<and>
   fst (SerialNumberGenerator_calls 1 SerialNumberGenerator_init) = [''JS566'']"
proof -
  have z: "map sint (fst (Z256Generator_calls 2 Z256Generator_init))
     = map (\<lambda>k. (42 + 191 * int (Suc k)) mod 256) [0..<2]"
    using generators_deterministic [of Z256Generator_init Z256Generator_init 2
        SerialNumberGenerator_init SerialNumberGenerator_init] by blast
  have s: "fst (SerialNumberGenerator_calls 1 SerialNumberGenerator_init)
     = map (\<lambda>k. mixed_radix [26, 26, 10, 10, 10] ''AA000'' ((Lcg_step ^^ Suc k) 123456)) [0..<1]"
    using generators_deterministic [of Z256Generator_init Z256Generator_init 1
        SerialNumberGenerator_init SerialNumberGenerator_init] by blast
  have u2: "[0..<2] = [0, Suc 0]" by (simp add: upt_rec numeral_2_eq_2)
  have "map sint (fst (Z256Generator_calls 2 Z256Generator_init)) = [233, 168]"
    unfolding z u2 by simp
  moreover have "Lcg_step 123456 = 450017" by (simp add: Lcg_step_eq)
  then have "fst (SerialNumberGenerator_calls 1 SerialNumberGenerator_init) = [''JS566'']"
    unfolding s by (simp add: mixed_radix_450017 del: mixed_radix.simps)
  ultimately show ?thesis by simp
qed

end
